theory Spec2Isabelle
  imports Main "HOL-Library.Sublist"
begin

section \<open>Byte buffers\<close>

text \<open>
  A Node \<open>Buffer\<close> is a fixed-length array of bytes. Isabelle's \<open>char\<close> is a byte
  (0..255), so a buffer's contents are a \<open>char list\<close>. Numbers that the program uses
  as lengths and offsets are \<open>int\<close>: \<open>buf.length -= len\<close> can go below zero, and the
  library calls below say what they do with such values.
\<close>

type_synonym Buffer = "char list"

definition CR :: char where "CR = CHR 0x0D"
definition LF :: char where "LF = CHR 0x0A"

text \<open>\<open>Buffer.alloc(n)\<close>: \<open>n\<close> zero bytes.\<close>

definition alloc :: "nat \<Rightarrow> Buffer" where
  "alloc n = replicate n (CHR 0x00)"

text \<open>
  The relative index of \<open>subarray\<close> and \<open>copyWithin\<close> (ECMAScript typed arrays): a
  negative index counts from the end, and the result is clamped to \<open>[0, len]\<close>.
\<close>

definition relIndex :: "int \<Rightarrow> nat \<Rightarrow> nat" where
  "relIndex r len = (if r < 0 then nat (max (int len + r) 0) else min (nat r) len)"

text \<open>\<open>buf.subarray(start, end)\<close>: the bytes of the view.\<close>

definition subarray :: "Buffer \<Rightarrow> int \<Rightarrow> int \<Rightarrow> Buffer" where
  "subarray xs start end =
     (let b = relIndex start (length xs); e = relIndex end (length xs)
      in take (e - b) (drop b xs))"

text \<open>
  \<open>buf.copyWithin(target, start, end)\<close>: copies the bytes \<open>[from, from + count)\<close> to
  offset \<open>to\<close>, as if through a temporary; the array keeps its length.
\<close>

definition copyWithin :: "Buffer \<Rightarrow> int \<Rightarrow> int \<Rightarrow> int \<Rightarrow> Buffer" where
  "copyWithin xs target start end =
     (let len = length xs;
          to = relIndex target len;
          from = relIndex start len;
          final = relIndex end len;
          count = min (int final - int from) (int len - int to)
      in if 0 < count
         then take to xs @ take (nat count) (drop from xs) @ drop (to + nat count) xs
         else xs)"

text \<open>
  A JavaScript string is modelled as the list of its Unicode code points. Every string
  of this program is a literal or comes out of a decoder, so it is well formed, and
  equality, emptiness and splitting on an ASCII separator agree between code points and
  UTF-16 code units.
\<close>

type_synonym jsstring = "nat list"

text \<open>What the program throws or rejects with.\<close>

datatype error =
    HTTPError (code: int) (message: jsstring)
  | RangeError
  | SocketError string

text \<open>
  \<open>source.copy(target, targetStart, 0)\<close>: a negative \<open>targetStart\<close> raises a
  RangeError (\<open>None\<close>); a \<open>targetStart\<close> at or beyond the end of the target
  copies nothing; otherwise as many bytes as fit are copied. The result is the target
  after the call.
\<close>

definition copy :: "Buffer \<Rightarrow> Buffer \<Rightarrow> int \<Rightarrow> Buffer option" where
  "copy source target targetStart =
     (if targetStart < 0 then None
      else if int (length target) \<le> targetStart then Some target
      else let t = nat targetStart; nb = min (length source) (length target - t)
           in Some (take t target @ take nb source @ drop (t + nb) target))"

section \<open>The accumulator: DynBuf\<close>

record DynBuf =
  data :: Buffer
  length_d :: int

text \<open>
  The loop \<open>while (cap < newLen) cap *= 2\<close> of \<open>bufPush\<close>. It is entered with
  \<open>cap = Math.max(buf.data.length, 32)\<close>, so \<open>0 < cap\<close> holds at every call; that
  conjunct is what makes the doubling reach \<open>newLen\<close> (lemma \<open>growCap_pos\<close> removes it).
\<close>

function growCap :: "nat \<Rightarrow> int \<Rightarrow> nat" where
  "growCap cap newLen = (if int cap < newLen \<and> 0 < cap then growCap (cap * 2) newLen else cap)"
  by pat_completeness auto
termination
  by (relation "measure (\<lambda>(cap, newLen). nat (newLen - int cap))") auto

declare growCap.simps [simp del]

text \<open>
  \<open>bufPush\<close> (append data to DynBuf). The second \<open>copy\<close> raises when \<open>buf.length\<close> is
  negative; by then \<open>buf.data\<close> may already have been replaced by the grown buffer, so
  the result is the accumulator after the call together with the error, if any.
\<close>

definition bufPush :: "DynBuf \<Rightarrow> Buffer \<Rightarrow> error option \<times> DynBuf" where
  "bufPush buf d =
     (let newLen = length_d buf + int (length d);
          buf1 = (if int (length (data buf)) < newLen
                  then let cap = growCap (max (length (data buf)) 32) newLen;
                           grown = alloc cap
                       in (case copy (data buf) grown 0 of
                             None \<Rightarrow> buf
                           | Some grown' \<Rightarrow> buf\<lparr>data := grown'\<rparr>)
                  else buf)
      in case copy d (data buf1) (length_d buf1) of
           None \<Rightarrow> (Some RangeError, buf1)
         | Some data' \<Rightarrow> (None, buf1\<lparr>data := data', length_d := newLen\<rparr>))"

text \<open>\<open>bufPop\<close> (remove data from the front).\<close>

definition bufPop :: "DynBuf \<Rightarrow> int \<Rightarrow> DynBuf" where
  "bufPop buf len =
     buf\<lparr>data := copyWithin (data buf) 0 len (length_d buf),
         length_d := length_d buf - len\<rparr>"

text \<open>The live region \<open>buf.data.subarray(0, buf.length)\<close>, as every reader takes it.\<close>

definition live :: "DynBuf \<Rightarrow> Buffer" where
  "live buf = subarray (data buf) 0 (length_d buf)"

definition capacity :: "DynBuf \<Rightarrow> nat" where
  "capacity buf = length (data buf)"

text \<open>The accumulator \<open>serveClient\<close> starts with.\<close>

definition emptyBuf :: DynBuf where
  "emptyBuf = \<lparr>data = alloc 0, length_d = 0\<rparr>"

text \<open>The well-formed accumulators: the length lies within the backing buffer.\<close>

definition wf :: "DynBuf \<Rightarrow> bool" where
  "wf buf \<longleftrightarrow> 0 \<le> length_d buf \<and> length_d buf \<le> int (length (data buf))"

text \<open>
  Sequences of accumulator operations. A push that raises still leaves its accumulator
  behind (possibly grown), and the sequence goes on from it.
\<close>

datatype bufOp = Push Buffer | Pop int

fun step :: "DynBuf \<Rightarrow> bufOp \<Rightarrow> DynBuf" where
  "step buf (Push d) = snd (bufPush buf d)"
| "step buf (Pop n) = bufPop buf n"

fun run :: "DynBuf \<Rightarrow> bufOp list \<Rightarrow> DynBuf" where
  "run buf [] = buf"
| "run buf (op # ops) = run (step buf op) ops"

text \<open>A sequence whose pops never take more than the bytes available.\<close>

fun within :: "int \<Rightarrow> bufOp list \<Rightarrow> bool" where
  "within avail [] = True"
| "within avail (Push d # ops) = within (avail + int (length d)) ops"
| "within avail (Pop n # ops) = (0 \<le> n \<and> n \<le> avail \<and> within (avail - n) ops)"

fun pushed :: "bufOp list \<Rightarrow> Buffer" where
  "pushed [] = []"
| "pushed (Push d # ops) = d @ pushed ops"
| "pushed (Pop n # ops) = pushed ops"

fun popped :: "bufOp list \<Rightarrow> int" where
  "popped [] = 0"
| "popped (Push d # ops) = popped ops"
| "popped (Pop n # ops) = n + popped ops"

section \<open>Strings\<close>

text \<open>A source literal, all ASCII.\<close>

definition str :: "string \<Rightarrow> jsstring" where
  "str s = map of_char s"

text \<open>
  \<open>buf.toString()\<close>: UTF-8 decoding that never fails; each maximal ill-formed part
  becomes U+FFFD. \<open>needed\<close> counts the continuation bytes still expected, \<open>cp\<close> is the
  code point under construction, \<open>[lo, hi]\<close> the range allowed for the next byte. A byte
  that breaks a sequence is decoded again as the start of the next one.
\<close>

function utf8Decode :: "nat \<Rightarrow> nat \<Rightarrow> nat \<Rightarrow> nat \<Rightarrow> Buffer \<Rightarrow> jsstring" where
  "utf8Decode needed cp lo hi [] = (if needed = 0 then [] else [0xFFFD])"
| "utf8Decode needed cp lo hi (b # bs) =
     (let x = of_char b in
      if needed = 0 then
        (if x < 0x80 then x # utf8Decode 0 0 0x80 0xBF bs
         else if 0xC2 \<le> x \<and> x \<le> 0xDF then utf8Decode 1 (x mod 0x20) 0x80 0xBF bs
         else if 0xE0 \<le> x \<and> x \<le> 0xEF then
           utf8Decode 2 (x mod 0x10) (if x = 0xE0 then 0xA0 else 0x80)
             (if x = 0xED then 0x9F else 0xBF) bs
         else if 0xF0 \<le> x \<and> x \<le> 0xF4 then
           utf8Decode 3 (x mod 0x08) (if x = 0xF0 then 0x90 else 0x80)
             (if x = 0xF4 then 0x8F else 0xBF) bs
         else 0xFFFD # utf8Decode 0 0 0x80 0xBF bs)
      else if x < lo \<or> hi < x then 0xFFFD # utf8Decode 0 0 0x80 0xBF (b # bs)
      else if needed = 1 then (cp * 0x40 + x mod 0x40) # utf8Decode 0 0 0x80 0xBF bs
      else utf8Decode (needed - 1) (cp * 0x40 + x mod 0x40) 0x80 0xBF bs)"
  by pat_completeness auto
termination
  by (relation "measure (\<lambda>(needed, cp, lo, hi, bs). 2 * length bs + (if needed = 0 then 0 else 1))")
    auto

definition toString :: "Buffer \<Rightarrow> jsstring" where
  "toString buf = utf8Decode 0 0 0x80 0xBF buf"

text \<open>\<open>buf.toString("latin1")\<close>: one character per byte.\<close>

definition toStringLatin1 :: "Buffer \<Rightarrow> jsstring" where
  "toStringLatin1 buf = map of_char buf"

text \<open>\<open>Buffer.from(string)\<close>: the UTF-8 encoding; a surrogate is written as U+FFFD.\<close>

definition utf8Encode :: "nat \<Rightarrow> Buffer" where
  "utf8Encode c =
     (if c < 0x80 then [char_of c]
      else if c < 0x800 then [char_of (0xC0 + c div 0x40), char_of (0x80 + c mod 0x40)]
      else if 0xD800 \<le> c \<and> c \<le> 0xDFFF then [CHR 0xEF, CHR 0xBF, CHR 0xBD]
      else if c < 0x10000 then
        [char_of (0xE0 + c div 0x1000), char_of (0x80 + c div 0x40 mod 0x40),
         char_of (0x80 + c mod 0x40)]
      else
        [char_of (0xF0 + c div 0x40000), char_of (0x80 + c div 0x1000 mod 0x40),
         char_of (0x80 + c div 0x40 mod 0x40), char_of (0x80 + c mod 0x40)])"

definition Buffer_from :: "jsstring \<Rightarrow> Buffer" where
  "Buffer_from s = concat (map utf8Encode s)"

text \<open>
  \<open>s.split(sep)\<close> for a non-empty separator (the program splits on \<open>" "\<close> and \<open>": "\<close>
  only): the pieces between the occurrences of \<open>sep\<close>, found from left to right without
  overlap. \<open>cur\<close> is the piece being read.
\<close>

function splitFrom :: "jsstring \<Rightarrow> jsstring \<Rightarrow> jsstring \<Rightarrow> jsstring list" where
  "splitFrom sep cur [] = [cur]"
| "splitFrom sep cur (c # cs) =
     (if sep \<noteq> [] \<and> prefix sep (c # cs)
      then cur # splitFrom sep [] (drop (length sep) (c # cs))
      else splitFrom sep (cur @ [c]) cs)"
  by pat_completeness auto
termination
  by (relation "measure (\<lambda>(sep, cur, s). length s)") auto

definition split :: "jsstring \<Rightarrow> jsstring \<Rightarrow> jsstring list" where
  "split s sep = splitFrom sep [] s"

text \<open>
  An array element that may be missing (\<open>undefined\<close> is \<open>None\<close>), the truth value
  JavaScript gives a string or \<open>undefined\<close>, and what \<open>+\<close> appends for it.
\<close>

definition at :: "'a list \<Rightarrow> nat \<Rightarrow> 'a option" where
  "at xs i = (if i < length xs then Some (xs ! i) else None)"

fun truthy :: "jsstring option \<Rightarrow> bool" where
  "truthy None = False"
| "truthy (Some s) = (s \<noteq> [])"

fun shown :: "jsstring option \<Rightarrow> jsstring" where
  "shown None = str ''undefined''"
| "shown (Some s) = s"

text \<open>
  \<open>parseInt(s)\<close> without a radix: leading white space is skipped, then an optional
  sign, then \<open>0x\<close> or \<open>0X\<close> selects radix 16, and the longest run of digits is read;
  no digit gives \<open>NaN\<close> (\<open>None\<close>). The value is kept as the exact integer: JavaScript
  rounds it to the nearest double, which changes neither its sign nor whether it is zero.
\<close>

definition isWhiteSpace :: "nat \<Rightarrow> bool" where
  "isWhiteSpace c \<longleftrightarrow>
     c \<in> {0x09, 0x0A, 0x0B, 0x0C, 0x0D, 0x20, 0xA0, 0x1680, 0x2028, 0x2029, 0x202F,
          0x205F, 0x3000, 0xFEFF} \<or> (0x2000 \<le> c \<and> c \<le> 0x200A)"

definition digitValue :: "nat \<Rightarrow> nat option" where
  "digitValue c =
     (if 0x30 \<le> c \<and> c \<le> 0x39 then Some (c - 0x30)
      else if 0x61 \<le> c \<and> c \<le> 0x7A then Some (c - 0x61 + 10)
      else if 0x41 \<le> c \<and> c \<le> 0x5A then Some (c - 0x41 + 10)
      else None)"

definition isDigit :: "nat \<Rightarrow> nat \<Rightarrow> bool" where
  "isDigit radix c = (case digitValue c of None \<Rightarrow> False | Some v \<Rightarrow> v < radix)"

definition digitsValue :: "nat \<Rightarrow> jsstring \<Rightarrow> nat" where
  "digitsValue radix z = foldl (\<lambda>a c. a * radix + (case digitValue c of None \<Rightarrow> 0 | Some v \<Rightarrow> v)) 0 z"

definition parseInt :: "jsstring \<Rightarrow> int option" where
  "parseInt s =
     (let s1 = dropWhile isWhiteSpace s;
          negative = (case s1 of [] \<Rightarrow> False | c # cs \<Rightarrow> c = 0x2D);
          s2 = (case s1 of [] \<Rightarrow> [] | c # cs \<Rightarrow> if c = 0x2B \<or> c = 0x2D then cs else s1);
          hex = (prefix (str ''0x'') s2 \<or> prefix (str ''0X'') s2);
          radix = (if hex then 16 else 10);
          s3 = (if hex then drop 2 s2 else s2);
          z = takeWhile (isDigit radix) s3
      in if z = [] then None
         else Some ((if negative then - 1 else 1) * int (digitsValue radix z)))"

section \<open>The HTTP request framer\<close>

record HTTPReq =
  method_req :: jsstring
  uri :: Buffer
  version :: jsstring
  headers :: "Buffer list"

text \<open>
  \<open>buf.indexOf(needle)\<close>: the index of the first occurrence, or \<open>-1\<close>. The first
  argument of \<open>indexOfFrom\<close> is the index of the position being tried.
\<close>

fun indexOfFrom :: "nat \<Rightarrow> Buffer \<Rightarrow> Buffer \<Rightarrow> int" where
  "indexOfFrom i needle [] = (if needle = [] then int i else - 1)"
| "indexOfFrom i needle (x # xs) =
     (if prefix needle (x # xs) then int i else indexOfFrom (Suc i) needle xs)"

definition indexOf :: "Buffer \<Rightarrow> Buffer \<Rightarrow> int" where
  "indexOf buf needle = indexOfFrom 0 needle buf"

definition splitter :: Buffer where
  "splitter = [CR, LF, CR, LF]"

definition kMaxHeaderLen :: int where
  "kMaxHeaderLen = 1024 * 8"

text \<open>
  \<open>splitLines\<close>: the loop \<open>for (let i = 0; i < buf.length - 1; i++)\<close>. On a \<open>\r\n\<close>
  at \<open>i\<close> the line \<open>[start, i)\<close> is pushed and both \<open>i\<close> and \<open>start\<close> move to \<open>i + 2\<close>.
\<close>

function splitLinesFrom :: "Buffer \<Rightarrow> nat \<Rightarrow> nat \<Rightarrow> Buffer list \<Rightarrow> Buffer list" where
  "splitLinesFrom buf i start lines =
     (if int i < int (length buf) - 1 then
        (if buf ! i = CR \<and> buf ! (i + 1) = LF
         then splitLinesFrom buf (i + 2) (i + 2) (lines @ [subarray buf (int start) (int i)])
         else splitLinesFrom buf (i + 1) start lines)
      else lines)"
  by pat_completeness auto
termination
  by (relation "measure (\<lambda>(buf, i, start, lines). length buf - i)") auto

declare splitLinesFrom.simps [simp del]

definition splitLines :: "Buffer \<Rightarrow> Buffer list" where
  "splitLines buf = splitLinesFrom buf 0 0 []"

definition validateHeader :: "Buffer \<Rightarrow> bool" where
  "validateHeader header =
     (let parts = split (toString header) (str '': '');
          key = at parts 0; value = at parts 1
      in truthy key \<and> truthy value)"

text \<open>
  The header loop of \<open>parseHTTPReq\<close>, over \<open>lines[1]\<close>, \<open>lines[2]\<close>, ...: the first
  line that is not a valid header raises.
\<close>

fun headerLoop :: "Buffer list \<Rightarrow> Buffer list \<Rightarrow> error + Buffer list" where
  "headerLoop [] hs = Inr hs"
| "headerLoop (line # rest) hs =
     (if \<not> validateHeader line
      then Inl (HTTPError 400 (str ''Invalid header, line: '' @ toString line))
      else headerLoop rest (hs @ [line]))"

text \<open>
  \<open>parseHTTPReq\<close>. The header lines are checked before the request line is. The lines
  are views of the block; the request holds their bytes as they are when it is built.
\<close>

definition parseHTTPReq :: "Buffer \<Rightarrow> error + HTTPReq" where
  "parseHTTPReq buf =
     (let lines = splitLines buf;
          tokens = (case at lines 0 of
                      None \<Rightarrow> []
                    | Some firstLine \<Rightarrow> split (toString firstLine) (str '' ''));
          m = at tokens 0; u = at tokens 1; v = at tokens 2
      in case headerLoop (drop 1 lines) [] of
           Inl e \<Rightarrow> Inl e
         | Inr hs \<Rightarrow>
             if \<not> truthy m \<or> \<not> truthy u \<or> \<not> truthy v
             then Inl (HTTPError 400
                    (str ''Invalid request, method: '' @ shown m @ str '', uri: '' @ shown u
                       @ str '', version: '' @ shown v))
             else Inr \<lparr>method_req = shown m, uri = Buffer_from (shown u), version = shown v,
                       headers = hs\<rparr>)"

text \<open>
  \<open>cutMessage\<close> of the HTTP server: the outcome (an error raised, \<open>null\<close>, or a
  request) and the accumulator after the call. When \<open>parseHTTPReq\<close> raises, \<open>bufPop\<close>
  is not reached.
\<close>

definition cutMessage :: "DynBuf \<Rightarrow> (error + HTTPReq option) \<times> DynBuf" where
  "cutMessage buf =
     (let idx = indexOf (subarray (data buf) 0 (length_d buf)) splitter
      in if idx < 0 then
           (if kMaxHeaderLen < length_d buf
            then (Inl (HTTPError 413 (str ''Request Header Fields Too Large'')), buf)
            else (Inr None, buf))
         else (case parseHTTPReq (subarray (data buf) 0 (idx + 4)) of
                 Inl e \<Rightarrow> (Inl e, buf)
               | Inr msg \<Rightarrow> (Inr (Some msg), bufPop buf (idx + 1))))"

section \<open>The line framer\<close>

text \<open>
  \<open>cutMessage\<close> of the echo server (messages are separated by \<open>\n\<close>). It has no
  \<open>throw\<close>: the outcome is \<open>null\<close> or the message.
\<close>

definition cutMessage_line :: "DynBuf \<Rightarrow> Buffer option \<times> DynBuf" where
  "cutMessage_line buf =
     (let idx = indexOf (subarray (data buf) 0 (length_d buf)) [LF]
      in if idx < 0 then (None, buf)
         else (Some (subarray (data buf) 0 (idx + 1)), bufPop buf (idx + 1)))"

section \<open>Header fields and body readers\<close>

text \<open>\<open>fieldGet\<close>: the first header whose first piece is the field name.\<close>

fun fieldGet :: "Buffer list \<Rightarrow> jsstring \<Rightarrow> Buffer option" where
  "fieldGet [] field = None"
| "fieldGet (header # rest) field =
     (let parts = split (toString header) (str '': '');
          key = at parts 0; value = at parts 1
      in if key = Some field
         then Some (Buffer_from (case value of None \<Rightarrow> str [] | Some v \<Rightarrow> v))
         else fieldGet rest field)"

declare fieldGet.simps(2) [simp del]

text \<open>
  A body reader: its declared length and the state of its closure. \<open>ConnLength\<close> is
  the reader made by \<open>readerFromConnLength\<close>, whose closure holds \<open>remain\<close>;
  \<open>Memory\<close> is the one made by \<open>readerFromMemory\<close>, whose closure holds the data and
  \<open>isDone\<close>.
\<close>

datatype BodyReader =
    ConnLength (length_r: int) (remain_r: int)
  | Memory (length_r: int) Buffer bool

definition readerFromConnLength :: "int \<Rightarrow> BodyReader" where
  "readerFromConnLength remain0 = ConnLength remain0 remain0"

definition readerFromMemory :: "Buffer \<Rightarrow> BodyReader" where
  "readerFromMemory d = Memory (int (length d)) d False"

text \<open>
  \<open>readerFromReq\<close>. The connection and the accumulator are only captured by the
  reader's closure; what is decided here depends on the request alone.
\<close>

definition readerFromReq :: "HTTPReq \<Rightarrow> error + BodyReader" where
  "readerFromReq req =
     (case (case fieldGet (headers req) (str ''Content-Length'') of
              None \<Rightarrow> Inr (- 1)
            | Some contentLen \<Rightarrow>
                (case parseInt (toStringLatin1 contentLen) of
                   None \<Rightarrow> Inl (HTTPError 400 (str ''bad Content-Length.''))
                 | Some n \<Rightarrow> Inr n)) of
        Inl e \<Rightarrow> Inl e
      | Inr bodyLen \<Rightarrow>
          (let bodyAllowed = \<not> (method_req req = str ''GET'' \<or> method_req req = str ''HEAD'');
               chunked = (map_option toString (fieldGet (headers req) (str ''Transfer-Encoding''))
                            = Some (str ''chunked''))
           in if \<not> bodyAllowed \<and> (0 < bodyLen \<or> chunked)
              then Inl (HTTPError 400 (str ''HTTP body not allowed.''))
              else (let bodyLen' = (if \<not> bodyAllowed then 0 else bodyLen)
                    in if 0 \<le> bodyLen' then Inr (readerFromConnLength bodyLen')
                       else if chunked then Inl (HTTPError 501 (str ''TODO for chunked encoding''))
                       else Inl (HTTPError 501 (str ''TODO for EOF'')))))"

section \<open>The connection: TCPConn\<close>

text \<open>
  The socket as the program uses it: whether it is flowing (\<open>pause()\<close> and \<open>resume()\<close>
  switch it; the server is created with \<open>pauseOnConnect\<close>), and how often \<open>resume()\<close>
  and \<open>pause()\<close> were called.
\<close>

record Socket =
  flowing :: bool
  resumes :: nat
  pauses :: nat

text \<open>
  A promise is a slot of a table that is settled at most once: \<open>resolve\<close> and
  \<open>reject\<close> on a settled promise do nothing. \<open>reader\<close> holds the callbacks of one
  promise, that is, its index in the table.
\<close>

datatype settlement = Resolved Buffer | Rejected error

record TCPConn =
  socket :: Socket
  err :: "error option"
  ended :: bool
  reader :: "nat option"

record Runtime =
  conn :: TCPConn
  promises :: "settlement option list"

definition settle :: "nat option \<Rightarrow> settlement \<Rightarrow> Runtime \<Rightarrow> Runtime" where
  "settle r v rt =
     (case r of
        None \<Rightarrow> rt
      | Some p \<Rightarrow>
          if p < length (promises rt) \<and> promises rt ! p = None
          then rt\<lparr>promises := (promises rt)[p := Some v]\<rparr>
          else rt)"

definition settled :: "Runtime \<Rightarrow> nat \<Rightarrow> settlement option" where
  "settled rt p = (if p < length (promises rt) then promises rt ! p else None)"

definition socket_pause :: "Socket \<Rightarrow> Socket" where
  "socket_pause so = so\<lparr>flowing := False, pauses := Suc (pauses so)\<rparr>"

definition socket_resume :: "Socket \<Rightarrow> Socket" where
  "socket_resume so = so\<lparr>flowing := True, resumes := Suc (resumes so)\<rparr>"

text \<open>\<open>soInit\<close>: the connection object; its three callbacks follow.\<close>

definition soInit :: "Socket \<Rightarrow> Runtime" where
  "soInit sock = \<lparr>conn = \<lparr>socket = sock, err = None, ended = False, reader = None\<rparr>,
                  promises = []\<rparr>"

definition onData :: "Buffer \<Rightarrow> Runtime \<Rightarrow> Runtime" where
  "onData d rt =
     (let rt1 = rt\<lparr>conn := (conn rt)\<lparr>socket := socket_pause (socket (conn rt))\<rparr>\<rparr>;
          rt2 = settle (reader (conn rt1)) (Resolved d) rt1
      in rt2\<lparr>conn := (conn rt2)\<lparr>reader := None\<rparr>\<rparr>)"

definition onError :: "error \<Rightarrow> Runtime \<Rightarrow> Runtime" where
  "onError e rt =
     (let rt1 = rt\<lparr>conn := (conn rt)\<lparr>err := Some e\<rparr>\<rparr>;
          rt2 = settle (reader (conn rt1)) (Rejected e) rt1
      in rt2\<lparr>conn := (conn rt2)\<lparr>reader := None\<rparr>\<rparr>)"

definition onEnd :: "Runtime \<Rightarrow> Runtime" where
  "onEnd rt =
     (let rt1 = rt\<lparr>conn := (conn rt)\<lparr>ended := True\<rparr>\<rparr>;
          rt2 = settle (reader (conn rt1)) (Resolved (Buffer_from (str ''EOF''))) rt1
      in rt2\<lparr>conn := (conn rt2)\<lparr>reader := None\<rparr>\<rparr>)"

text \<open>
  \<open>soRead\<close>: the new promise and the state after its executor has run. Only the
  error branch returns early; the \<open>ended\<close> branch resolves and goes on.
\<close>

definition soRead :: "Runtime \<Rightarrow> nat \<times> Runtime" where
  "soRead rt =
     (let p = length (promises rt);
          rt0 = rt\<lparr>promises := promises rt @ [None]\<rparr>
      in case err (conn rt0) of
           Some e \<Rightarrow> (p, settle (Some p) (Rejected e) rt0)
         | None \<Rightarrow>
             (let rt1 = (if ended (conn rt0)
                         then settle (Some p) (Resolved (Buffer_from (str ''EOF''))) rt0
                         else rt0);
                  rt2 = rt1\<lparr>conn := (conn rt1)\<lparr>reader := Some p\<rparr>\<rparr>
              in (p, rt2\<lparr>conn := (conn rt2)\<lparr>socket := socket_resume (socket (conn rt2))\<rparr>\<rparr>)))"

text \<open>
  What the transport does next: the events it will emit, in order. An event is
  emitted only while the socket is flowing.
\<close>

datatype event = DataEv Buffer | ErrorEv error | EndEv

fun deliver :: "event \<Rightarrow> Runtime \<Rightarrow> Runtime" where
  "deliver (DataEv d) rt = onData d rt"
| "deliver (ErrorEv e) rt = onError e rt"
| "deliver EndEv rt = onEnd rt"

text \<open>
  \<open>await p\<close>: events are delivered until the promise \<open>p\<close> is settled. \<open>None\<close>: it
  never is (the socket is paused, or the transport has nothing more to emit).
\<close>

fun await :: "nat \<Rightarrow> Runtime \<Rightarrow> event list \<Rightarrow> (settlement \<times> Runtime \<times> event list) option" where
  "await p rt [] = (case settled rt p of None \<Rightarrow> None | Some v \<Rightarrow> Some (v, rt, []))"
| "await p rt (e # es) =
     (case settled rt p of
        Some v \<Rightarrow> Some (v, rt, e # es)
      | None \<Rightarrow> if flowing (socket (conn rt)) then await p (deliver e rt) es else None)"

text \<open>
  The state a length-bounded reader works on: its own \<open>remain\<close>, the accumulator, the
  connection, and the events to come.
\<close>

record ReaderState =
  remain :: int
  accum :: DynBuf
  runtime :: Runtime
  wire :: "event list"

text \<open>
  The end of \<open>read\<close>. \<open>result\<close> is a view of \<open>buf.data\<close> and is copied by
  \<open>Buffer.from(result)\<close> only after \<open>bufPop\<close> has moved the bytes, so the bytes
  returned are read from the accumulator after the pop.
\<close>

definition consumeFront :: "ReaderState \<Rightarrow> (error + Buffer) \<times> ReaderState" where
  "consumeFront s =
     (let consume = min (length_d (accum s)) (remain s);
          popped_buf = bufPop (accum s) consume
      in (Inr (subarray (data popped_buf) 0 consume),
          s\<lparr>remain := remain s - consume, accum := popped_buf\<rparr>))"

text \<open>
  \<open>read\<close> of the reader made by \<open>readerFromConnLength\<close>: what it returns or raises and
  the state after it; \<open>None\<close> when the awaited \<open>soRead\<close> never settles.
\<close>

definition read :: "ReaderState \<Rightarrow> ((error + Buffer) \<times> ReaderState) option" where
  "read s =
     (if remain s \<le> 0 then Some (Inr (Buffer_from (str [])), s)
      else if length_d (accum s) \<le> 0 then
        (case soRead (runtime s) of (p, rt1) \<Rightarrow>
           (case await p rt1 (wire s) of
              None \<Rightarrow> None
            | Some (Rejected e, rt2, w2) \<Rightarrow> Some (Inl e, s\<lparr>runtime := rt2, wire := w2\<rparr>)
            | Some (Resolved d, rt2, w2) \<Rightarrow>
                (case bufPush (accum s) d of
                   (Some e, b1) \<Rightarrow> Some (Inl e, s\<lparr>accum := b1, runtime := rt2, wire := w2\<rparr>)
                 | (None, b1) \<Rightarrow>
                     if length d = 0
                     then Some (Inl (HTTPError 400 (str ''Unexpected EOF in request body'')),
                                s\<lparr>accum := b1, runtime := rt2, wire := w2\<rparr>)
                     else Some (consumeFront (s\<lparr>accum := b1, runtime := rt2, wire := w2\<rparr>)))))
      else Some (consumeFront s))"

text \<open>\<open>n\<close> reads in a row; the chunks returned, oldest first.\<close>

fun reads :: "nat \<Rightarrow> ReaderState \<Rightarrow> ((error + Buffer) list \<times> ReaderState) option" where
  "reads 0 s = Some ([], s)"
| "reads (Suc n) s =
     (case read s of
        None \<Rightarrow> None
      | Some (r, s1) \<Rightarrow>
          (case reads n s1 of None \<Rightarrow> None | Some (rs, s2) \<Rightarrow> Some (r # rs, s2)))"

text \<open>
  A reader of declared length \<open>n\<close> over a fresh connection (paused, as accepted) and an
  empty accumulator, with the events the transport will emit.
\<close>

definition freshReader :: "int \<Rightarrow> event list \<Rightarrow> ReaderState" where
  "freshReader n evs =
     \<lparr>remain = remain_r (readerFromConnLength n), accum = emptyBuf,
      runtime = soInit \<lparr>flowing = False, resumes = 0, pauses = 0\<rparr>, wire = evs\<rparr>"

section \<open>Inputs used in the examples\<close>

definition getRequest :: Buffer where
  "getRequest = ''GET / HTTP/1.1'' @ [CR, LF] @ ''Host: x'' @ [CR, LF, CR, LF]"

text \<open>A \<open>GET\<close> request with the given header lines.\<close>

definition getWith :: "Buffer list \<Rightarrow> HTTPReq" where
  "getWith hs = \<lparr>method_req = str ''GET'', uri = ''/'', version = str ''HTTP/1.1'', headers = hs\<rparr>"

section \<open>Properties of the accumulator\<close>

lemma growCap_pos:
  "0 < cap \<Longrightarrow> growCap cap newLen = (if int cap < newLen then growCap (cap * 2) newLen else cap)"
  by (subst growCap.simps) simp

lemma growCap_ge: "0 < cap \<Longrightarrow> newLen \<le> int (growCap cap newLen)"
proof (induction cap newLen rule: growCap.induct)
  case (1 cap newLen)
  show ?case
  proof (cases "int cap < newLen")
    case True
    with 1 show ?thesis by (subst growCap.simps) simp
  next
    case False
    then show ?thesis by (subst growCap.simps) simp
  qed
qed

lemma growCap_mono: "cap \<le> growCap cap newLen"
proof (induction cap newLen rule: growCap.induct)
  case (1 cap newLen)
  show ?case
  proof (cases "int cap < newLen \<and> 0 < cap")
    case True
    with 1 have "cap * 2 \<le> growCap (cap * 2) newLen" by simp
    with True show ?thesis by (subst growCap.simps) simp
  next
    case False
    then show ?thesis by (subst growCap.simps) auto
  qed
qed

lemma growCap_doubling: "\<exists>k. growCap cap newLen = cap * 2 ^ k"
proof (induction cap newLen rule: growCap.induct)
  case (1 cap newLen)
  show ?case
  proof (cases "int cap < newLen \<and> 0 < cap")
    case True
    with 1 obtain k where "growCap (cap * 2) newLen = cap * 2 * 2 ^ k" by auto
    with True have "growCap cap newLen = cap * 2 ^ Suc k"
      by (subst growCap.simps) simp
    then show ?thesis by blast
  next
    case False
    then have "growCap cap newLen = cap * 2 ^ 0" by (subst growCap.simps) auto
    then show ?thesis by blast
  qed
qed

lemma relIndex_le: "relIndex r n \<le> n"
  by (auto simp: relIndex_def)

lemma length_copyWithin [simp]: "length (copyWithin xs t s e) = length xs"
proof -
  define a where "a = relIndex t (length xs)"
  define b where "b = relIndex s (length xs)"
  define f where "f = relIndex e (length xs)"
  have "a \<le> length xs" "b \<le> length xs" "f \<le> length xs"
    by (simp_all add: a_def b_def f_def relIndex_le)
  then show ?thesis
    unfolding copyWithin_def Let_def a_def [symmetric] b_def [symmetric] f_def [symmetric]
    by auto
qed

lemma length_copy: "copy s t i = Some t' \<Longrightarrow> length t' = length t"
  by (auto simp: copy_def Let_def split: if_splits)

lemma copy_into_alloc: "\<exists>g. copy xs (alloc n) 0 = Some g \<and> length g = n"
  by (auto simp: copy_def alloc_def Let_def)

lemma capacity_bufPop: "capacity (bufPop buf n) = capacity buf"
  by (simp add: bufPop_def capacity_def)

lemma run_append: "run buf (xs @ ys) = run (run buf xs) ys"
  by (induction xs arbitrary: buf) simp_all

lemma copy_None: "copy s t i = None \<longleftrightarrow> i < 0"
  by (simp add: copy_def Let_def)

lemma copy_Some_nonneg: "copy s t i = Some x \<Longrightarrow> 0 \<le> i"
  by (simp add: copy_def Let_def split: if_splits)

lemma capacity_bufPush_eq:
  "capacity (snd (bufPush buf d)) =
     (if int (capacity buf) < length_d buf + int (length d)
      then growCap (max (capacity buf) 32) (length_d buf + int (length d))
      else capacity buf)"
proof -
  let ?cap = "growCap (max (length (data buf)) 32) (length_d buf + int (length d))"
  obtain g where g: "copy (data buf) (alloc ?cap) 0 = Some g" "length g = ?cap"
    using copy_into_alloc by blast
  show ?thesis
    using g by (auto simp: bufPush_def Let_def capacity_def split: option.splits dest: length_copy)
qed

lemma length_bufPush:
  "length_d (snd (bufPush buf d)) =
     (if length_d buf < 0 then length_d buf else length_d buf + int (length d))"
proof -
  let ?cap = "growCap (max (length (data buf)) 32) (length_d buf + int (length d))"
  obtain g where g: "copy (data buf) (alloc ?cap) 0 = Some g"
    using copy_into_alloc by blast
  show ?thesis
    using g by (auto simp: bufPush_def Let_def copy_None split: option.splits dest: copy_Some_nonneg)
qed

lemma capacity_bufPush: "capacity buf \<le> capacity (snd (bufPush buf d))"
proof -
  have "max (capacity buf) 32 \<le> growCap (max (capacity buf) 32) (length_d buf + int (length d))"
    by (rule growCap_mono)
  then show ?thesis by (simp add: capacity_bufPush_eq)
qed

lemma length_le_capacity_bufPush:
  "length_d (snd (bufPush buf d)) \<le> int (capacity (snd (bufPush buf d)))"
proof -
  have "length_d buf + int (length d)
      \<le> int (growCap (max (capacity buf) 32) (length_d buf + int (length d)))"
    by (rule growCap_ge) simp
  then show ?thesis by (simp add: capacity_bufPush_eq length_bufPush)
qed

lemma capacity_bufPush_doubling:
  "capacity (snd (bufPush buf d)) = capacity buf \<or>
   (\<exists>k. capacity (snd (bufPush buf d)) = max (capacity buf) 32 * 2 ^ k)"
  using growCap_doubling [of "max (capacity buf) 32" "length_d buf + int (length d)"]
  by (simp add: capacity_bufPush_eq)

lemma capacity_step: "capacity buf \<le> capacity (step buf op)"
  by (cases op) (simp_all add: capacity_bufPush capacity_bufPop)

lemma capacity_run: "capacity buf \<le> capacity (run buf ops)"
proof (induction ops arbitrary: buf)
  case Nil
  show ?case by simp
next
  case (Cons op ops)
  have "capacity buf \<le> capacity (step buf op)" by (rule capacity_step)
  also have "\<dots> \<le> capacity (run (step buf op) ops)" by (rule Cons.IH)
  finally show ?case by simp
qed

lemma subarray_prefix:
  "0 \<le> e \<Longrightarrow> e \<le> int (length xs) \<Longrightarrow> subarray xs 0 e = take (nat e) xs"
  by (simp add: subarray_def relIndex_def Let_def)

lemma live_wf: "wf buf \<Longrightarrow> live buf = take (nat (length_d buf)) (data buf)"
  by (simp add: live_def wf_def subarray_prefix)

lemma length_live: "wf buf \<Longrightarrow> int (length (live buf)) = length_d buf"
  by (auto simp: live_wf wf_def)

lemma copy_fits:
  assumes "0 \<le> i" "i + int (length s) \<le> int (length t)"
  shows "\<exists>t'. copy s t i = Some t' \<and> length t' = length t
           \<and> take (nat i + length s) t' = take (nat i) t @ s"
proof (cases "int (length t) \<le> i")
  case True
  with assms have "length s = 0" "nat i = length t" by linarith+
  with True assms show ?thesis by (simp add: copy_def)
next
  case False
  with assms have "min (length s) (length t - nat i) = length s" by auto
  with False assms show ?thesis by (auto simp: copy_def Let_def)
qed

lemma bufPush_wf:
  assumes "wf buf"
  shows "fst (bufPush buf d) = None \<and> wf (snd (bufPush buf d))
         \<and> live (snd (bufPush buf d)) = live buf @ d"
proof -
  let ?n = "length_d buf + int (length d)"
  let ?cap = "growCap (max (length (data buf)) 32) ?n"
  define buf1 where "buf1 = (if int (length (data buf)) < ?n
     then (case copy (data buf) (alloc ?cap) 0 of None \<Rightarrow> buf | Some g \<Rightarrow> buf\<lparr>data := g\<rparr>)
     else buf)"
  have push: "bufPush buf d = (case copy d (data buf1) (length_d buf1) of
           None \<Rightarrow> (Some RangeError, buf1)
         | Some data' \<Rightarrow> (None, buf1\<lparr>data := data', length_d := ?n\<rparr>))"
    unfolding bufPush_def Let_def buf1_def by (rule refl)
  have len1: "length_d buf1 = length_d buf"
    by (simp add: buf1_def split: option.splits)
  have nonneg: "0 \<le> length_d buf" and le: "length_d buf \<le> int (length (data buf))"
    using assms by (simp_all add: wf_def)
  have fits: "?n \<le> int (length (data buf1))"
    and same: "take (nat (length_d buf)) (data buf1) = take (nat (length_d buf)) (data buf)"
  proof -
    show "?n \<le> int (length (data buf1))"
    proof (cases "int (length (data buf)) < ?n")
      case True
      obtain g where g: "copy (data buf) (alloc ?cap) 0 = Some g" "length g = ?cap"
        using copy_into_alloc by blast
      have "?n \<le> int ?cap" by (rule growCap_ge) simp
      with True g show ?thesis by (simp add: buf1_def)
    next
      case False
      then show ?thesis by (simp add: buf1_def)
    qed
    show "take (nat (length_d buf)) (data buf1) = take (nat (length_d buf)) (data buf)"
    proof (cases "int (length (data buf)) < ?n")
      case True
      have "length (data buf) \<le> ?cap"
        using growCap_mono [of "max (length (data buf)) 32" ?n] by simp
      then have "0 + int (length (data buf)) \<le> int (length (alloc ?cap))"
        by (simp add: alloc_def)
      from copy_fits [OF _ this] obtain g where
        g: "copy (data buf) (alloc ?cap) 0 = Some g" "take (length (data buf)) g = data buf"
        by auto
      have "nat (length_d buf) \<le> length (data buf)" using le by linarith
      then have "take (nat (length_d buf)) g = take (nat (length_d buf)) (take (length (data buf)) g)"
        by (simp add: min_def)
      with True g show ?thesis by (simp add: buf1_def)
    next
      case False
      then show ?thesis by (simp add: buf1_def)
    qed
  qed
  from copy_fits [of "length_d buf" d "data buf1"] nonneg fits obtain t' where
    t': "copy d (data buf1) (length_d buf) = Some t'" "length t' = length (data buf1)"
        "take (nat (length_d buf) + length d) t' = take (nat (length_d buf)) (data buf1) @ d"
    by auto
  have res: "bufPush buf d = (None, buf1\<lparr>data := t', length_d := ?n\<rparr>)"
    using t' by (simp add: push len1)
  have "nat ?n = nat (length_d buf) + length d" using nonneg by simp
  then have "live (buf1\<lparr>data := t', length_d := ?n\<rparr>) = live buf @ d"
    using t' same nonneg fits assms by (simp add: live_def subarray_prefix wf_def)
  moreover have "wf (buf1\<lparr>data := t', length_d := ?n\<rparr>)"
    using t' nonneg fits by (simp add: wf_def)
  ultimately show ?thesis by (simp add: res)
qed

lemma bufPop_wf:
  assumes "wf buf" "0 \<le> n" "n \<le> length_d buf"
  shows "wf (bufPop buf n) \<and> live (bufPop buf n) = drop (nat n) (live buf)"
proof -
  let ?xs = "data buf"
  let ?l = "nat (length_d buf)"
  have b: "?l \<le> length ?xs" "nat n \<le> ?l" "0 \<le> length_d buf"
    using assms by (auto simp: wf_def)
  have idx: "relIndex 0 (length ?xs) = 0" "relIndex n (length ?xs) = nat n"
    "relIndex (length_d buf) (length ?xs) = ?l"
    using b assms by (auto simp: relIndex_def)
  have wf': "wf (bufPop buf n)"
    using assms by (simp add: wf_def bufPop_def)
  have "take (?l - nat n) (copyWithin ?xs 0 n (length_d buf)) = drop (nat n) (take ?l ?xs)"
  proof (cases "nat n < ?l")
    case True
    then have "min (int ?l - int (nat n)) (int (length ?xs) - int 0) = int (?l - nat n)"
      using b by auto
    with True show ?thesis
      using b by (simp add: copyWithin_def idx Let_def drop_take)
  next
    case False
    with b show ?thesis by simp
  qed
  moreover have "nat (length_d buf - n) = ?l - nat n" using assms b by simp
  ultimately have "live (bufPop buf n) = drop (nat n) (live buf)"
    using assms wf' by (simp add: live_wf) (simp add: bufPop_def)
  with wf' show ?thesis by simp
qed

lemma run_content:
  "wf buf \<Longrightarrow> within (length_d buf) ops \<Longrightarrow>
   wf (run buf ops) \<and> live (run buf ops) = drop (nat (popped ops)) (live buf @ pushed ops)"
proof (induction ops arbitrary: buf)
  case Nil
  then show ?case by simp
next
  case (Cons op ops)
  show ?case
  proof (cases op)
    case (Push d)
    let ?b = "snd (bufPush buf d)"
    from bufPush_wf [OF Cons.prems(1), of d]
    have w: "wf ?b" and l: "live ?b = live buf @ d" by simp_all
    have "length_d ?b = length_d buf + int (length d)"
      using length_live [OF w] length_live [OF Cons.prems(1)] l by simp
    with Cons.prems Push have "within (length_d ?b) ops" by simp
    from Cons.IH [OF w this] l Push show ?thesis by simp
  next
    case (Pop n)
    with Cons.prems have n: "0 \<le> n" "n \<le> length_d buf" and
      rest: "within (length_d buf - n) ops" by simp_all
    from bufPop_wf [OF Cons.prems(1) n]
    have w: "wf (bufPop buf n)" and l: "live (bufPop buf n) = drop (nat n) (live buf)"
      by simp_all
    have "length_d (bufPop buf n) = length_d buf - n" by (simp add: bufPop_def)
    with rest have "within (length_d (bufPop buf n)) ops" by simp
    from Cons.IH [OF w this] have
      "wf (run buf (op # ops))"
      "live (run buf (op # ops)) = drop (nat (popped ops)) (drop (nat n) (live buf) @ pushed ops)"
      using Pop l by simp_all
    moreover have "nat n \<le> length (live buf)"
      using length_live [OF Cons.prems(1)] n by simp
    moreover have "0 \<le> popped ops" if "within a ops" for a
      using that by (induction ops arbitrary: a rule: popped.induct) auto
    then have "0 \<le> popped ops" using rest by blast
    ultimately show ?thesis
      using Pop n by (simp add: nat_add_distrib add.commute)
  qed
qed

section \<open>The claims about the accumulator\<close>

text \<open>
  C7. Across every sequence of push and pop-front operations, from any accumulator: no
  step lowers the capacity, the capacity is at least the logical length after each
  push, pop-front leaves the capacity as it is, and a push either keeps the capacity or
  makes it the old capacity (at least the floor 32) doubled some number of times.
\<close>

theorem capacity_never_shrinks:
  "capacity (run buf ops) \<le> capacity (run buf (ops @ [op]))
   \<and> capacity buf \<le> capacity (run buf ops)
   \<and> length_d (run buf (ops @ [Push d])) \<le> int (capacity (run buf (ops @ [Push d])))
   \<and> capacity (bufPop buf n) = capacity buf
   \<and> (capacity (snd (bufPush buf d)) = capacity buf
      \<or> (\<exists>k. capacity (snd (bufPush buf d)) = max (capacity buf) 32 * 2 ^ k))"
  by (simp add: run_append capacity_step capacity_run length_le_capacity_bufPush
      capacity_bufPop capacity_bufPush_doubling)

text \<open>
  C6. For every sequence of pushes and pop-fronts on a well-formed accumulator in which
  no pop takes more than the bytes then available, the live region afterwards is the
  bytes held at the start followed by all pushed bytes, in order, without the popped
  prefix. From the empty accumulator that is the pushed bytes minus the popped prefix.
\<close>

theorem live_region_content:
  "wf buf \<Longrightarrow> within (length_d buf) ops \<Longrightarrow>
   live (run buf ops) = drop (nat (popped ops)) (live buf @ pushed ops)"
  using run_content by blast

theorem live_region_content_witness:
  "wf emptyBuf \<and> within (length_d emptyBuf) [Push ''ab'', Pop 1, Push ''cde'', Pop 2]
   \<and> live (run emptyBuf [Push ''ab'', Pop 1, Push ''cde'', Pop 2]) = ''de''"
proof -
  have w: "wf emptyBuf" by (simp add: wf_def emptyBuf_def alloc_def)
  have i: "within (length_d emptyBuf) [Push ''ab'', Pop 1, Push ''cde'', Pop 2]"
    by (simp add: emptyBuf_def)
  have e: "live emptyBuf = []"
    by (simp add: live_def emptyBuf_def alloc_def subarray_def)
  from live_region_content [OF w i] e w i show ?thesis by simp
qed

section \<open>The HTTP framer\<close>

lemma indexOfFrom_cases:
  "indexOfFrom i needle xs = - 1 \<or>
   (\<exists>k. indexOfFrom i needle xs = int (i + k) \<and> k \<le> length xs \<and> prefix needle (drop k xs))"
proof (induction xs arbitrary: i)
  case Nil
  show ?case by simp
next
  case (Cons x xs)
  show ?case
  proof (cases "prefix needle (x # xs)")
    case True
    then have "indexOfFrom i needle (x # xs) = int (i + 0) \<and> 0 \<le> length (x # xs)
        \<and> prefix needle (drop 0 (x # xs))" by simp
    then show ?thesis by blast
  next
    case False
    from Cons.IH [of "Suc i"] show ?thesis
    proof
      assume "indexOfFrom (Suc i) needle xs = - 1"
      with False show ?thesis by simp
    next
      assume "\<exists>k. indexOfFrom (Suc i) needle xs = int (Suc i + k) \<and> k \<le> length xs
          \<and> prefix needle (drop k xs)"
      then obtain k where "indexOfFrom (Suc i) needle xs = int (Suc i + k)" "k \<le> length xs"
        "prefix needle (drop k xs)" by blast
      with False have "indexOfFrom i needle (x # xs) = int (i + Suc k) \<and> Suc k \<le> length (x # xs)
          \<and> prefix needle (drop (Suc k) (x # xs))" by simp
      then show ?thesis by blast
    qed
  qed
qed

lemma indexOf_found:
  assumes "indexOf xs needle = int idx"
  shows "prefix needle (drop idx xs)"
  using indexOfFrom_cases [of 0 needle xs] assms by (auto simp: indexOf_def)

lemma indexOf_nonneg:
  assumes "\<not> indexOf xs needle < 0"
  shows "\<exists>idx. indexOf xs needle = int idx \<and> prefix needle (drop idx xs)"
  using indexOfFrom_cases [of 0 needle xs] assms by (auto simp: indexOf_def)

lemma indexOfFrom_absent:
  "(\<And>j. j \<le> length xs \<Longrightarrow> \<not> prefix needle (drop j xs)) \<Longrightarrow> indexOfFrom i needle xs = - 1"
proof (induction xs arbitrary: i)
  case Nil
  then show ?case by force
next
  case (Cons x xs)
  have "\<not> prefix needle (x # xs)" using Cons.prems [of 0] by simp
  moreover have "indexOfFrom (Suc i) needle xs = - 1"
  proof (rule Cons.IH)
    fix j assume "j \<le> length xs"
    then show "\<not> prefix needle (drop j xs)" using Cons.prems [of "Suc j"] by simp
  qed
  ultimately show ?case by simp
qed

lemma splitter_found:
  assumes "prefix splitter (drop idx xs)"
  shows "\<exists>rest. drop idx xs = CR # LF # CR # LF # rest"
  using assms by (auto simp: splitter_def prefix_def)

lemma subarray_take:
  "0 \<le> e \<Longrightarrow> subarray xs 0 e = take (nat e) xs"
  by (cases "nat e \<le> length xs") (simp_all add: subarray_def relIndex_def Let_def min_def)

lemma live_take: "live buf = take (relIndex (length_d buf) (length (data buf))) (data buf)"
  by (simp add: live_def subarray_def relIndex_def Let_def)

lemma block_live:
  assumes "prefix splitter (drop idx (live buf))"
  shows "subarray (data buf) 0 (int idx + 4) = take (idx + 4) (live buf)"
proof -
  let ?e = "relIndex (length_d buf) (length (data buf))"
  obtain rest where r: "drop idx (live buf) = CR # LF # CR # LF # rest"
    using splitter_found [OF assms] by blast
  have "length (drop idx (live buf)) = length (live buf) - idx" by simp
  with r have "idx + 4 \<le> length (live buf)" by simp
  then have "idx + 4 \<le> ?e" by (simp add: live_take)
  then have "take (idx + 4) (take ?e (data buf)) = take (idx + 4) (data buf)"
    by (simp add: min_def)
  moreover have "nat (int idx + 4) = idx + 4" by simp
  ultimately show ?thesis
    by (simp add: subarray_take live_take)
qed

lemma cutMessage_found:
  assumes "indexOf (live buf) splitter = int idx"
  shows "cutMessage buf =
     (case parseHTTPReq (take (idx + 4) (live buf)) of
        Inl e \<Rightarrow> (Inl e, buf)
      | Inr msg \<Rightarrow> (Inr (Some msg), bufPop buf (int idx + 1)))"
proof -
  have "prefix splitter (drop idx (live buf))" using assms by (rule indexOf_found)
  from block_live [OF this] assms show ?thesis
    by (simp add: cutMessage_def live_def [symmetric])
qed

lemma cutMessage_absent:
  assumes "indexOf (live buf) splitter < 0"
  shows "cutMessage buf =
     (if kMaxHeaderLen < length_d buf
      then (Inl (HTTPError 413 (str ''Request Header Fields Too Large'')), buf)
      else (Inr None, buf))"
  using assms by (simp add: cutMessage_def live_def [symmetric])

lemma subarray_empty: "subarray xs a a = []"
  by (simp add: subarray_def Let_def)

lemma splitLinesFrom_terminator:
  "length b = idx + 4 \<Longrightarrow> b ! idx = CR \<Longrightarrow> b ! (idx + 1) = LF \<Longrightarrow> b ! (idx + 2) = CR \<Longrightarrow>
   b ! (idx + 3) = LF \<Longrightarrow> i \<le> idx \<Longrightarrow>
   \<exists>ls. ls \<noteq> [] \<and> splitLinesFrom b i start acc = ls @ [[]]"
proof (induction b i start acc rule: splitLinesFrom.induct)
  case (1 buf i start lines)
  have lt: "int i < int (length buf) - 1" using "1.prems" by simp
  have last: "splitLinesFrom buf (idx + 2) (idx + 2) ls = ls @ [[]]" for ls
  proof -
    have "splitLinesFrom buf (idx + 2) (idx + 2) ls
        = splitLinesFrom buf (idx + 2 + 2) (idx + 2 + 2) (ls @ [subarray buf (int (idx + 2)) (int (idx + 2))])"
      using "1.prems" by (subst splitLinesFrom.simps) (simp add: numeral_3_eq_3 add.commute)
    also have "\<dots> = ls @ [subarray buf (int (idx + 2)) (int (idx + 2))]"
      using "1.prems" by (subst splitLinesFrom.simps) simp
    finally show ?thesis by (simp add: subarray_empty)
  qed
  show ?case
  proof (cases "buf ! i = CR \<and> buf ! (i + 1) = LF")
    case True
    note pair = True
    show ?thesis
    proof (cases "i = idx")
      case True
      have "splitLinesFrom buf i start lines
          = splitLinesFrom buf (i + 2) (i + 2) (lines @ [subarray buf (int start) (int i)])"
        using lt pair by (subst splitLinesFrom.simps) simp
      with True last have "splitLinesFrom buf i start lines
          = (lines @ [subarray buf (int start) (int i)]) @ [[]]" by simp
      then show ?thesis by blast
    next
      case False
      have "i + 1 \<noteq> idx" using pair "1.prems" by (auto simp: CR_def LF_def)
      with False "1.prems" have "i + 2 \<le> idx" by simp
      from "1.IH"(1) [OF lt pair "1.prems"(1-5) this]
      obtain ls where "ls \<noteq> []"
        "splitLinesFrom buf (i + 2) (i + 2) (lines @ [subarray buf (int start) (int i)]) = ls @ [[]]"
        by blast
      moreover have "splitLinesFrom buf i start lines
          = splitLinesFrom buf (i + 2) (i + 2) (lines @ [subarray buf (int start) (int i)])"
        using lt pair by (subst splitLinesFrom.simps) simp
      ultimately show ?thesis by auto
    qed
  next
    case False
    then have "i \<noteq> idx" using "1.prems" by auto
    with "1.prems" have "i + 1 \<le> idx" by simp
    from "1.IH"(2) [OF lt False "1.prems"(1-5) this]
    obtain ls where "ls \<noteq> []" "splitLinesFrom buf (i + 1) start lines = ls @ [[]]"
      by blast
    moreover have "splitLinesFrom buf i start lines = splitLinesFrom buf (i + 1) start lines"
      using lt False by (subst splitLinesFrom.simps) auto
    ultimately show ?thesis by auto
  qed
qed

lemma validateHeader_empty: "\<not> validateHeader []"
  by (simp add: validateHeader_def toString_def split_def at_def)

lemma headerLoop_empty_line:
  "\<exists>m. headerLoop (xs @ [[]]) hs = Inl (HTTPError 400 m)"
  by (induction xs arbitrary: hs) (simp_all add: validateHeader_empty)

lemma parseHTTPReq_block:
  assumes "drop idx xs = CR # LF # CR # LF # rest"
  shows "\<exists>m. parseHTTPReq (take (idx + 4) xs) = Inl (HTTPError 400 m)"
proof -
  let ?b = "take (idx + 4) xs"
  have len: "idx + 4 \<le> length xs"
  proof -
    have "length (drop idx xs) = length xs - idx" by simp
    with assms show ?thesis by simp
  qed
  have nth: "xs ! (idx + k) = (CR # LF # CR # LF # rest) ! k" if "k < 4" for k
    using that len assms by (metis add_lessD1 le_add1 nth_drop order_trans)
  have "length ?b = idx + 4" using len by simp
  moreover have "?b ! idx = CR" "?b ! (idx + 1) = LF" "?b ! (idx + 2) = CR" "?b ! (idx + 3) = LF"
    using nth [of 0] nth [of 1] nth [of 2] nth [of 3] by (simp_all add: numeral_3_eq_3)
  ultimately obtain ls where ls: "ls \<noteq> []" "splitLines ?b = ls @ [[]]"
    unfolding splitLines_def using splitLinesFrom_terminator [of ?b idx 0 0 "[]"] by blast
  then have "drop 1 (splitLines ?b) = tl ls @ [[]]" by (cases ls) simp_all
  then show ?thesis
    using headerLoop_empty_line [of "tl ls" "[]"] by (auto simp: parseHTTPReq_def Let_def)
qed

lemma cutMessage_never_returns: "fst (cutMessage buf) \<noteq> Inr (Some msg)"
proof (cases "indexOf (live buf) splitter < 0")
  case True
  then show ?thesis by (simp add: cutMessage_absent)
next
  case False
  from indexOf_nonneg [OF False] obtain idx where
    idx: "indexOf (live buf) splitter = int idx" "prefix splitter (drop idx (live buf))"
    by blast
  from splitter_found [OF idx(2)] obtain rest where
    "drop idx (live buf) = CR # LF # CR # LF # rest" by blast
  from parseHTTPReq_block [OF this] obtain m where
    "parseHTTPReq (take (idx + 4) (live buf)) = Inl (HTTPError 400 m)" by blast
  then show ?thesis by (simp add: cutMessage_found [OF idx(1)])
qed

lemma wf_emptyBuf: "wf emptyBuf"
  by (simp add: wf_def emptyBuf_def alloc_def)

lemma live_emptyBuf: "live emptyBuf = []"
  by (simp add: live_def emptyBuf_def alloc_def subarray_def)

lemma pushed_once:
  "fst (bufPush emptyBuf d) = None \<and> wf (snd (bufPush emptyBuf d)) \<and> live (snd (bufPush emptyBuf d)) = d"
  using bufPush_wf [OF wf_emptyBuf, of d] by (simp add: live_emptyBuf)

lemma utf8Decode_ascii:
  "(\<And>b. b \<in> set bs \<Longrightarrow> (of_char b :: nat) < 0x80) \<Longrightarrow>
   utf8Decode 0 0 0x80 0xBF (bs @ rest) = map of_char bs @ utf8Decode 0 0 0x80 0xBF rest"
  by (induction bs) (simp_all add: Let_def)

lemma toString_ascii:
  "(\<And>b. b \<in> set bs \<Longrightarrow> (of_char b :: nat) < 0x80) \<Longrightarrow> toString bs = str bs"
  using utf8Decode_ascii [of bs "[]"] by (simp add: toString_def str_def)

lemma splitLines_getRequest: "splitLines getRequest = [''GET / HTTP/1.1'', ''Host: x'', []]"
  by (simp add: splitLines_def splitLinesFrom.simps getRequest_def CR_def LF_def subarray_def
      relIndex_def)

lemma validateHeader_Host: "validateHeader ''Host: x''"
proof -
  have "toString ''Host: x'' = str ''Host: x''" by (rule toString_ascii) auto
  then show ?thesis by (simp add: validateHeader_def split_def str_def at_def)
qed

lemma parseHTTPReq_getRequest:
  "parseHTTPReq getRequest = Inl (HTTPError 400 (str ''Invalid header, line: ''))"
  by (simp add: parseHTTPReq_def splitLines_getRequest validateHeader_Host validateHeader_empty
      toString_def Let_def)

lemma indexOf_getRequest: "indexOf getRequest splitter = int 23"
  by (simp add: indexOf_def getRequest_def splitter_def CR_def LF_def)

text \<open>
  C1. The framer is fed exactly \<open>"GET / HTTP/1.1\r\nHost: x\r\n\r\n"\<close>, pushed into the
  empty accumulator. The claim expects a parsed request; \<open>cutMessage\<close> raises
  \<open>HTTPError(400, "Invalid header, line: ")\<close> and leaves the accumulator as it was:
  \<open>splitLines\<close> yields the empty line before the final \<open>\r\n\<close> as a third line, and
  the header loop rejects it. (\<open>cutMessage_never_returns\<close>: no input gets past this.)
\<close>

theorem cutMessage_getRequest_raises:
  "cutMessage (snd (bufPush emptyBuf getRequest))
     = (Inl (HTTPError 400 (str ''Invalid header, line: '')), snd (bufPush emptyBuf getRequest))"
proof -
  let ?b = "snd (bufPush emptyBuf getRequest)"
  have l: "live ?b = getRequest" using pushed_once by blast
  have "indexOf (live ?b) splitter = int 23" by (simp add: l indexOf_getRequest)
  from cutMessage_found [OF this] have "cutMessage ?b =
     (case parseHTTPReq (take (23 + 4) getRequest) of
        Inl e \<Rightarrow> (Inl e, ?b)
      | Inr msg \<Rightarrow> (Inr (Some msg), bufPop ?b (int 23 + 1)))" by (simp only: l)
  moreover have "take (23 + 4) getRequest = getRequest" by (simp add: getRequest_def)
  ultimately show ?thesis by (simp add: parseHTTPReq_getRequest)
qed

text \<open>
  Whenever the terminator is found, \<open>parseHTTPReq\<close> raises on the block, so \<open>cutMessage\<close>
  raises with code 400 and the accumulator is left as it was: the \<open>bufPop\<close> that follows
  the parse is not reached.
\<close>

lemma cutMessage_raises_on_terminator:
  assumes "indexOf (live buf) splitter = int idx"
  shows "\<exists>m. cutMessage buf = (Inl (HTTPError 400 m), buf)"
proof -
  have "prefix splitter (drop idx (live buf))" using assms by (rule indexOf_found)
  from splitter_found [OF this] obtain rest where
    "drop idx (live buf) = CR # LF # CR # LF # rest" by blast
  from parseHTTPReq_block [OF this] obtain m where
    "parseHTTPReq (take (idx + 4) (live buf)) = Inl (HTTPError 400 m)" by blast
  then have "cutMessage buf = (Inl (HTTPError 400 m), buf)"
    by (simp add: cutMessage_found [OF assms])
  then show ?thesis by blast
qed

lemma indexOf_absent: "x \<notin> set xs \<Longrightarrow> indexOf xs [x] = - 1"
proof -
  assume x: "x \<notin> set xs"
  have "indexOfFrom 0 [x] xs = - 1"
  proof (rule indexOfFrom_absent)
    fix j assume "j \<le> length xs"
    show "\<not> prefix [x] (drop j xs)"
    proof
      assume "prefix [x] (drop j xs)"
      then have "x \<in> set (drop j xs)" by (auto simp: prefix_def)
      then have "x \<in> set xs" by (rule in_set_dropD)
      with x show False by simp
    qed
  qed
  then show ?thesis by (simp add: indexOf_def)
qed

lemma cutMessage_line_absent: "LF \<notin> set (live buf) \<Longrightarrow> cutMessage_line buf = (None, buf)"
  by (simp add: cutMessage_line_def live_def [symmetric] indexOf_absent)

text \<open>
  C8, as amended. When the live region holds no \<open>\n\<close>, the line framer returns
  \<open>null\<close> and leaves the accumulator as it is, whatever the length.
\<close>

theorem line_framer_waits:
  "LF \<notin> set (live buf) \<Longrightarrow> cutMessage_line buf = (None, buf)"
  by (rule cutMessage_line_absent)

theorem line_framer_waits_witness:
  "LF \<notin> set (live (snd (bufPush emptyBuf ''abc'')))
   \<and> cutMessage_line (snd (bufPush emptyBuf ''abc'')) = (None, snd (bufPush emptyBuf ''abc''))"
proof -
  have l: "live (snd (bufPush emptyBuf ''abc'')) = ''abc''" using pushed_once by blast
  then have n: "LF \<notin> set (live (snd (bufPush emptyBuf ''abc'')))" by (simp add: LF_def)
  from line_framer_waits [OF n] n show ?thesis by simp
qed

text \<open>
  C8 as stated fails: on a million bytes without \<open>\n\<close> the line framer still returns
  \<open>null\<close>; its outcome type has no error at all.
\<close>

theorem line_framer_no_limit_counterexample:
  "cutMessage_line (snd (bufPush emptyBuf (replicate 1000000 CHR ''a'')))
     = (None, snd (bufPush emptyBuf (replicate 1000000 CHR ''a'')))
   \<and> length_d (snd (bufPush emptyBuf (replicate 1000000 CHR ''a''))) = 1000000"
proof -
  let ?b = "snd (bufPush emptyBuf (replicate 1000000 CHR ''a''))"
  have w: "wf ?b" and l: "live ?b = replicate 1000000 CHR ''a''" using pushed_once by blast+
  have "LF \<notin> set (live ?b)" by (simp add: l LF_def)
  then have "cutMessage_line ?b = (None, ?b)" by (rule cutMessage_line_absent)
  moreover have "int (length (replicate 1000000 CHR ''a'')) = length_d ?b"
    using length_live [OF w] by (simp only: l)
  then have "length_d ?b = 1000000" by simp
  ultimately show ?thesis by simp
qed

section \<open>Header fields and the request body reader\<close>

lemma splitFrom_until:
  "c \<notin> set xs \<Longrightarrow> splitFrom (c # sep) cur (xs @ (c # sep) @ ys) = (cur @ xs) # splitFrom (c # sep) [] ys"
  by (induction xs arbitrary: cur) auto

lemma splitFrom_last:
  "c \<notin> set xs \<Longrightarrow> splitFrom (c # sep) cur xs = [cur @ xs]"
  by (induction xs arbitrary: cur) auto

lemma splitFrom_first: "\<exists>p ps. splitFrom sep cur s = p # ps"
  by (induction sep cur s rule: splitFrom.induct) auto

lemma utf8Encode_ascii: "(of_char b :: nat) < 0x80 \<Longrightarrow> utf8Encode (of_char b) = [b]"
  by (simp add: utf8Encode_def)

lemma Buffer_from_ascii:
  "(\<And>b. b \<in> set v \<Longrightarrow> (of_char b :: nat) < 0x80) \<Longrightarrow> Buffer_from (str v) = v"
  by (induction v) (simp_all add: Buffer_from_def str_def utf8Encode_ascii)

lemma colon_str: "CHR '':'' \<notin> set k \<Longrightarrow> (58 :: nat) \<notin> set (str k)"
proof
  assume k: "CHR '':'' \<notin> set k" and "(58 :: nat) \<in> set (str k)"
  then obtain b where b: "b \<in> set k" "(of_char b :: nat) = 58" by (auto simp: str_def)
  have "(of_char CHR '':'' :: nat) = 58" by simp
  with b(2) have "b = CHR '':''" by (metis of_char_eq_iff)
  with b(1) k show False by simp
qed

lemma sep_str: "str '': '' = [58, 32]"
  by (simp add: str_def)







lemma fieldGet_one:
  assumes "\<forall>b \<in> set (k @ v). (of_char b :: nat) < 0x80"
    and "CHR '':'' \<notin> set k" "CHR '':'' \<notin> set v"
  shows "fieldGet ((k @ '': '' @ v) # hs) f = (if str k = f then Some v else fieldGet hs f)"
proof -
  have "toString (k @ '': '' @ v) = str k @ [58, 32] @ str v"
    using assms(1) by (subst toString_ascii) (auto simp: str_def)
  moreover have "splitFrom [58, 32] [] (str k @ [58, 32] @ str v)
      = ([] @ str k) # splitFrom [58, 32] [] (str v)"
    using splitFrom_until [of 58 "str k" "[32]" "[]" "str v"] colon_str [OF assms(2)] by simp
  moreover have "splitFrom [58, 32] [] (str v) = [[] @ str v]"
    by (rule splitFrom_last) (rule colon_str [OF assms(3)])
  moreover have "Buffer_from (str v) = v" using assms(1) by (intro Buffer_from_ascii) simp
  ultimately show ?thesis by (simp add: fieldGet.simps split_def sep_str at_def Let_def)
qed

lemma fieldGet_ContentLength_0:
  "fieldGet [''Content-Length: 0''] f = (if str ''Content-Length'' = f then Some ''0'' else None)"
  using fieldGet_one [of "''Content-Length''" "''0''" "[]" f] by simp

lemma fieldGet_ContentLength_5:
  "fieldGet [''Content-Length: 5''] f = (if str ''Content-Length'' = f then Some ''5'' else None)"
  using fieldGet_one [of "''Content-Length''" "''5''" "[]" f] by simp

lemma fieldGet_chunked:
  "fieldGet [''Transfer-Encoding: chunked''] f
     = (if str ''Transfer-Encoding'' = f then Some ''chunked'' else None)"
  using fieldGet_one [of "''Transfer-Encoding''" "''chunked''" "[]" f] by simp

lemma fieldGet_Host:
  "fieldGet [''Host: x''] f = (if str ''Host'' = f then Some ''x'' else None)"
  using fieldGet_one [of "''Host''" "''x''" "[]" f] by simp

lemma parseInt_0: "parseInt (toStringLatin1 ''0'') = Some 0"
  by (simp add: parseInt_def toStringLatin1_def isWhiteSpace_def isDigit_def digitValue_def
      digitsValue_def str_def Let_def)

lemma parseInt_5: "parseInt (toStringLatin1 ''5'') = Some 5"
  by (simp add: parseInt_def toStringLatin1_def isWhiteSpace_def isDigit_def digitValue_def
      digitsValue_def str_def Let_def)

lemma toString_chunked: "toString ''chunked'' = str ''chunked''"
  by (rule toString_ascii) auto

text \<open>
  C4, as amended. For a request whose method is \<open>GET\<close> and whose \<open>Content-Length\<close>
  header has the value \<open>v\<close>: \<open>readerFromReq\<close> fails with 400 when \<open>parseInt\<close> gives
  \<open>NaN\<close>, when it gives a positive number, and when the request is chunked; when it
  gives zero or less (the value \<open>0\<close> included) and the request is not chunked, the
  reader is built, with declared length 0.
\<close>

theorem GET_with_Content_Length:
  "method_req req = str ''GET'' \<Longrightarrow> fieldGet (headers req) (str ''Content-Length'') = Some v \<Longrightarrow>
   readerFromReq req =
     (case parseInt (toStringLatin1 v) of
        None \<Rightarrow> Inl (HTTPError 400 (str ''bad Content-Length.''))
      | Some n \<Rightarrow>
          if 0 < n \<or> map_option toString (fieldGet (headers req) (str ''Transfer-Encoding''))
                        = Some (str ''chunked'')
          then Inl (HTTPError 400 (str ''HTTP body not allowed.''))
          else Inr (readerFromConnLength 0))"
  by (auto simp: readerFromReq_def Let_def split: option.splits)

theorem GET_with_Content_Length_witness:
  "method_req (getWith [''Content-Length: 5'']) = str ''GET''
   \<and> fieldGet (headers (getWith [''Content-Length: 5''])) (str ''Content-Length'') = Some ''5''
   \<and> readerFromReq (getWith [''Content-Length: 5''])
       = Inl (HTTPError 400 (str ''HTTP body not allowed.''))"
proof -
  have m: "method_req (getWith [''Content-Length: 5'']) = str ''GET''"
    by (simp add: getWith_def)
  have f: "fieldGet (headers (getWith [''Content-Length: 5''])) (str ''Content-Length'') = Some ''5''"
    by (simp add: getWith_def fieldGet_ContentLength_5)
  from GET_with_Content_Length [OF m f] m f show ?thesis by (simp add: parseInt_5)
qed

text \<open>
  C4 as stated fails at the value \<open>0\<close>: \<open>GET\<close> with \<open>Content-Length: 0\<close> is accepted.
\<close>

theorem GET_Content_Length_0_counterexample:
  "method_req (getWith [''Content-Length: 0'']) = str ''GET''
   \<and> fieldGet (headers (getWith [''Content-Length: 0''])) (str ''Content-Length'') = Some ''0''
   \<and> readerFromReq (getWith [''Content-Length: 0'']) = Inr (ConnLength 0 0)"
proof -
  have "str ''Content-Length'' \<noteq> str ''Transfer-Encoding''" by (simp add: str_def)
  then show ?thesis
    by (simp add: readerFromReq_def getWith_def fieldGet_ContentLength_0 parseInt_0
        readerFromConnLength_def Let_def)
qed

text \<open>
  C9, as amended. For a request whose method is \<open>GET\<close> or \<open>HEAD\<close> and that has no
  \<open>Content-Length\<close> header: \<open>readerFromReq\<close> returns a length-bounded reader of
  declared length 0 unless the request says \<open>Transfer-Encoding: chunked\<close>, in which
  case it fails with 400; it never fails with 501.
\<close>

theorem GET_HEAD_without_Content_Length:
  "method_req req = str ''GET'' \<or> method_req req = str ''HEAD'' \<Longrightarrow>
   fieldGet (headers req) (str ''Content-Length'') = None \<Longrightarrow>
   readerFromReq req =
     (if map_option toString (fieldGet (headers req) (str ''Transfer-Encoding''))
           = Some (str ''chunked'')
      then Inl (HTTPError 400 (str ''HTTP body not allowed.''))
      else Inr (readerFromConnLength 0))
   \<and> (\<forall>m. readerFromReq req \<noteq> Inl (HTTPError 501 m))"
  by (auto simp: readerFromReq_def Let_def)

theorem GET_HEAD_without_Content_Length_witness:
  "(method_req (getWith [''Host: x'']) = str ''GET'' \<or> method_req (getWith [''Host: x'']) = str ''HEAD'')
   \<and> fieldGet (headers (getWith [''Host: x''])) (str ''Content-Length'') = None
   \<and> readerFromReq (getWith [''Host: x'']) = Inr (ConnLength 0 0)
   \<and> length_r (ConnLength 0 0) = 0"
proof -
  have ne: "str ''Host'' \<noteq> str ''Content-Length''" "str ''Host'' \<noteq> str ''Transfer-Encoding''"
    by (simp_all add: str_def)
  have m: "method_req (getWith [''Host: x'']) = str ''GET'' \<or> method_req (getWith [''Host: x'']) = str ''HEAD''"
    by (simp add: getWith_def)
  have f: "fieldGet (headers (getWith [''Host: x''])) (str ''Content-Length'') = None"
    using ne by (simp add: getWith_def fieldGet_Host)
  have t: "fieldGet (headers (getWith [''Host: x''])) (str ''Transfer-Encoding'') = None"
    using ne by (simp add: getWith_def fieldGet_Host)
  from GET_HEAD_without_Content_Length [OF m f] m f t show ?thesis
    by (simp add: readerFromConnLength_def)
qed

text \<open>
  C9 as stated fails for a chunked \<open>GET\<close> without \<open>Content-Length\<close>: 400, no reader.
\<close>

theorem GET_chunked_counterexample:
  "method_req (getWith [''Transfer-Encoding: chunked'']) = str ''GET''
   \<and> fieldGet (headers (getWith [''Transfer-Encoding: chunked''])) (str ''Content-Length'') = None
   \<and> readerFromReq (getWith [''Transfer-Encoding: chunked''])
       = Inl (HTTPError 400 (str ''HTTP body not allowed.''))"
proof -
  have "str ''Transfer-Encoding'' \<noteq> str ''Content-Length''" by (simp add: str_def)
  then show ?thesis
    by (simp add: readerFromReq_def getWith_def fieldGet_chunked toString_chunked Let_def)
qed

section \<open>The connection and the length-bounded reader\<close>

lemma Buffer_from_EOF: "Buffer_from (str ''EOF'') = ''EOF''"
  by (rule Buffer_from_ascii) auto

lemma Buffer_from_empty: "Buffer_from (str []) = []"
  by (simp add: Buffer_from_def str_def)

text \<open>
  C2. On a fresh connection a read is issued, the transport then reports
  end-of-stream, and a second read is issued. The claim expects both reads to get an
  empty chunk and the second one to leave the transport alone. In the code the pending
  read is resolved with the three bytes \<open>EOF\<close>, and so is the second read, which also
  stores its callbacks in \<open>reader\<close> and calls \<open>resume()\<close>.
\<close>

theorem end_of_stream_resolves_EOF:
  "(let rt0 = soInit sock;
        (p1, rt1) = soRead rt0;
        rt2 = onEnd rt1;
        (p2, rt3) = soRead rt2
    in settled rt1 p1 = None
       \<and> settled rt2 p1 = Some (Resolved ''EOF'')
       \<and> ended (conn rt2)
       \<and> settled rt3 p2 = Some (Resolved ''EOF'')
       \<and> length ''EOF'' = 3
       \<and> reader (conn rt3) = Some p2
       \<and> resumes (socket (conn rt3)) = Suc (resumes (socket (conn rt2)))
       \<and> flowing (socket (conn rt3)))"
  by (simp add: soInit_def soRead_def onEnd_def settle_def settled_def socket_resume_def
      Buffer_from_EOF Let_def)

lemma copyWithin_nothing: "copyWithin xs t e e = xs"
  by (simp add: copyWithin_def Let_def)

lemma consumeFront_all:
  assumes "wf (accum s)" "length_d (accum s) \<le> remain s"
  shows "consumeFront s =
     (Inr (live (accum s)),
      s\<lparr>remain := remain s - length_d (accum s), accum := (accum s)\<lparr>length_d := 0\<rparr>\<rparr>)"
proof -
  have m: "min (length_d (accum s)) (remain s) = length_d (accum s)"
    using assms(2) by simp
  have "bufPop (accum s) (length_d (accum s)) = (accum s)\<lparr>length_d := 0\<rparr>"
    by (simp add: bufPop_def copyWithin_nothing)
  then show ?thesis
    by (simp add: consumeFront_def Let_def m live_def)
qed

lemma await_settled: "settled rt p = Some v \<Longrightarrow> await p rt es = Some (v, rt, es)"
  by (cases es) simp_all

lemma soRead_await_data:
  assumes "err (conn rt) = None" "\<not> ended (conn rt)"
  shows "\<exists>p rt1 rt2. soRead rt = (p, rt1)
           \<and> await p rt1 (DataEv d # es) = Some (Resolved d, rt2, es)
           \<and> err (conn rt2) = None \<and> \<not> ended (conn rt2)"
proof -
  let ?p = "length (promises rt)"
  let ?rt1 = "rt\<lparr>promises := promises rt @ [None],
                conn := (conn rt)\<lparr>reader := Some ?p, socket := socket_resume (socket (conn rt))\<rparr>\<rparr>"
  have r: "soRead rt = (?p, ?rt1)"
    using assms by (simp add: soRead_def Let_def)
  have pending: "settled ?rt1 ?p = None" by (simp add: settled_def)
  have fl: "flowing (socket (conn ?rt1))" by (simp add: socket_resume_def)
  have got: "settled (onData d ?rt1) ?p = Some (Resolved d)"
    by (simp add: onData_def settle_def settled_def Let_def)
  have "await ?p ?rt1 (DataEv d # es) = await ?p (onData d ?rt1) es"
    using pending fl by simp
  also have "\<dots> = Some (Resolved d, onData d ?rt1, es)"
    using got by (rule await_settled)
  finally have "await ?p ?rt1 (DataEv d # es) = Some (Resolved d, onData d ?rt1, es)" .
  moreover have "err (conn (onData d ?rt1)) = None \<and> \<not> ended (conn (onData d ?rt1))"
    using assms by (simp add: onData_def settle_def Let_def)
  ultimately show ?thesis using r by blast
qed

lemma read_drained:
  assumes "wf (accum s)" "length_d (accum s) = 0" "0 < remain s"
    and "err (conn (runtime s)) = None" "\<not> ended (conn (runtime s))"
    and "wire s = DataEv d # es" "d \<noteq> []" "int (length d) \<le> remain s"
  shows "\<exists>s'. read s = Some (Inr d, s') \<and> wf (accum s') \<and> length_d (accum s') = 0
           \<and> remain s' = remain s - int (length d)
           \<and> err (conn (runtime s')) = None \<and> \<not> ended (conn (runtime s')) \<and> wire s' = es"
proof -
  from soRead_await_data [OF assms(4,5), of d es] obtain p rt1 rt2 where
    so: "soRead (runtime s) = (p, rt1)"
    and aw: "await p rt1 (DataEv d # es) = Some (Resolved d, rt2, es)"
    and idle: "err (conn rt2) = None" "\<not> ended (conn rt2)" by blast
  have "live (accum s) = []" using assms(1,2) by (simp add: live_wf)
  with bufPush_wf [OF assms(1), of d] obtain b1 where
    push: "bufPush (accum s) d = (None, b1)" and w1: "wf b1" and l1: "live b1 = d"
    by (cases "bufPush (accum s) d") simp
  have n1: "length_d b1 = int (length d)" using length_live [OF w1] by (simp add: l1)
  let ?s1 = "s\<lparr>accum := b1, runtime := rt2, wire := es\<rparr>"
  have "read s = Some (consumeFront ?s1)"
    using assms(2,3,6,7) so aw push by (simp add: read_def del: await.simps)
  moreover have "consumeFront ?s1 =
      (Inr (live b1), ?s1\<lparr>remain := remain ?s1 - length_d b1, accum := b1\<lparr>length_d := 0\<rparr>\<rparr>)"
    using consumeFront_all [of ?s1] w1 n1 assms(8) by simp
  moreover have "wf (b1\<lparr>length_d := 0\<rparr>)" using w1 by (simp add: wf_def)
  ultimately show ?thesis using idle l1 n1 by simp
qed

lemma read_finished: "remain s \<le> 0 \<Longrightarrow> read s = Some (Inr [], s)"
  by (simp add: read_def Buffer_from_empty)

lemma reads_finished: "remain s \<le> 0 \<Longrightarrow> reads n s = Some (replicate n (Inr []), s)"
  by (induction n) (simp_all add: read_finished)

text \<open>
  C5. A length-bounded reader of declared length 5 over a connection that delivers
  \<open>ab\<close> and then \<open>cde\<close>: the first read returns \<open>ab\<close>, the second \<open>cde\<close>, the third an
  empty chunk, and so does every read after it. No read hangs or raises.
\<close>

theorem length_reader_ab_cde:
  "map_option fst (reads (3 + n) (freshReader 5 [DataEv ''ab'', DataEv ''cde'']))
     = Some ([Inr ''ab'', Inr ''cde'', Inr []] @ replicate n (Inr []))"
proof -
  let ?s0 = "freshReader 5 [DataEv ''ab'', DataEv ''cde'']"
  have "\<exists>s1. read ?s0 = Some (Inr ''ab'', s1) \<and> wf (accum s1) \<and> length_d (accum s1) = 0
           \<and> remain s1 = remain ?s0 - int (length ''ab'')
           \<and> err (conn (runtime s1)) = None \<and> \<not> ended (conn (runtime s1))
           \<and> wire s1 = [DataEv ''cde'']"
    by (rule read_drained)
      (simp_all add: freshReader_def readerFromConnLength_def wf_emptyBuf soInit_def,
       simp add: emptyBuf_def)
  then obtain s1 where s1: "read ?s0 = Some (Inr ''ab'', s1)" "wf (accum s1)"
    "length_d (accum s1) = 0" "remain s1 = 3" "err (conn (runtime s1)) = None"
    "\<not> ended (conn (runtime s1))" "wire s1 = [DataEv ''cde'']"
    by (auto simp: freshReader_def readerFromConnLength_def)
  have "\<exists>s2. read s1 = Some (Inr ''cde'', s2) \<and> wf (accum s2) \<and> length_d (accum s2) = 0
           \<and> remain s2 = remain s1 - int (length ''cde'')
           \<and> err (conn (runtime s2)) = None \<and> \<not> ended (conn (runtime s2)) \<and> wire s2 = []"
    using s1 by (intro read_drained) simp_all
  then obtain s2 where s2: "read s1 = Some (Inr ''cde'', s2)" "remain s2 = 0"
    using s1(4) by auto
  have "reads (Suc n) s2 = Some (replicate (Suc n) (Inr []), s2)"
    using s2(2) by (intro reads_finished) simp
  then have "reads (Suc (Suc (Suc n))) ?s0
      = Some (Inr ''ab'' # Inr ''cde'' # replicate (Suc n) (Inr []), s2)"
    using s1(1) s2(1) by simp
  moreover have "3 + n = Suc (Suc (Suc n))" by simp
  ultimately have "reads (3 + n) ?s0
      = Some (Inr ''ab'' # Inr ''cde'' # replicate (Suc n) (Inr []), s2)"
    by (simp only:)
  then show ?thesis by (simp del: reads.simps)
qed

end
